theory Spec2Isabelle
  imports Main "HOL-Library.Sublist"
begin

section \<open>Bytes, errors and the C library calls of mdb-lookup-server.c\<close>

text \<open>
  A C \<open>char\<close> is a byte. A \<open>char\<close> array is a list of bytes of the array's size; the
  string held in it is the bytes before the first NUL.
\<close>

type_synonym byte = char

abbreviation NUL :: byte where
  "NUL \<equiv> CHR 0x00"

abbreviation LF :: byte where
  "LF \<equiv> CHR 0x0A"

text \<open>
  Every way the C code stops short of a normal return: \<open>terminate\<close> (perror, then
  \<open>exit(1)\<close>) ends the whole process; a read outside an array and an overflow of a
  signed \<open>int\<close> are undefined behaviour in C and are results of their own here.
\<close>

datatype error = Exit string | OutOfBounds | SignedOverflow

definition terminate :: "string \<Rightarrow> error + 'a" where
  "terminate message = Inl (Exit message)"

definition MAX_CONNECTIONS :: nat where
  "MAX_CONNECTIONS = 5"

definition MAX_KEY_LENGTH :: nat where
  "MAX_KEY_LENGTH = 5"

text \<open>The limits of \<open>int\<close> (32 bits) and \<open>size_t\<close> (64 bits).\<close>

definition INT_MAX :: int where
  "INT_MAX = 2147483647"

definition SIZE_MAX :: nat where
  "SIZE_MAX = 2 ^ 64 - 1"

text \<open>
  \<open>c_string arr\<close> is the string a C library function reads from the array \<open>arr\<close>:
  the bytes before the first NUL, or nothing when the array holds no NUL and the read
  would run past its end.
\<close>

definition c_string :: "byte list \<Rightarrow> byte list option" where
  "c_string arr =
     (if NUL \<in> set arr then Some (takeWhile (\<lambda>c. c \<noteq> NUL) arr) else None)"

definition strlen :: "byte list \<Rightarrow> nat" where
  "strlen arr = length (takeWhile (\<lambda>c. c \<noteq> NUL) arr)"

text \<open>
  \<open>strncpy(dst, src, n)\<close> writes exactly \<open>n\<close> bytes: the string in \<open>src\<close> cut to \<open>n\<close>
  bytes, padded with NUL when it is shorter.
\<close>

definition strncpy :: "byte list \<Rightarrow> nat \<Rightarrow> byte list" where
  "strncpy src n =
     (let str = takeWhile (\<lambda>c. c \<noteq> NUL) src
      in take n str @ replicate (n - length str) NUL)"

text \<open>
  \<open>strstr(haystack, needle)\<close> on two strings: the tail of \<open>haystack\<close> at the first
  occurrence of \<open>needle\<close>, or \<open>None\<close> for the NULL pointer.
\<close>

fun strstr :: "byte list \<Rightarrow> byte list \<Rightarrow> byte list option" where
  "strstr [] needle = (if needle = [] then Some [] else None)"
| "strstr (h # hs) needle =
     (if prefix needle (h # hs) then Some (h # hs) else strstr hs needle)"

text \<open>The conversions \<open>%d\<close> and \<open>%4d\<close> of \<open>sprintf\<close>.\<close>

definition digit_char :: "nat \<Rightarrow> byte" where
  "digit_char d = ''0123456789'' ! d"

fun digits :: "nat \<Rightarrow> byte list" where
  "digits n = (if n < 10 then [digit_char n] else digits (n div 10) @ [digit_char (n mod 10)])"

declare digits.simps [simp del]

definition fmt_d :: "int \<Rightarrow> byte list" where
  "fmt_d i = (if i < 0 then CHR ''-'' # digits (nat (- i)) else digits (nat i))"

definition fmt_4d :: "int \<Rightarrow> byte list" where
  "fmt_4d i = replicate (4 - length (fmt_d i)) CHR '' '' @ fmt_d i"

text \<open>\<open>sprintf(resultBuffer, "%4d: {%s} said {%s}\n", recordCount, name, msg)\<close>\<close>

definition format_result :: "int \<Rightarrow> byte list \<Rightarrow> byte list \<Rightarrow> byte list" where
  "format_result recordCount nm ms =
     fmt_4d recordCount @ '': {'' @ nm @ ''} said {'' @ ms @ ''}'' @ [LF]"

section \<open>Streams and the socket\<close>

text \<open>
  A \<open>FILE\<close> opened for reading: the bytes still to come, what the operating system
  reports once they are used up (end of file or a read error), and the stream's error
  indicator, which \<open>ferror\<close> tests.
\<close>

datatype stream_end = EndOfFile | ReadError

record FILE =
  unread :: "byte list"
  ending :: stream_end
  error_flag :: bool

definition ferror :: "FILE \<Rightarrow> bool" where
  "ferror fp = error_flag fp"

text \<open>
  Modelled from the spec: \<open>struct MdbRec\<close> is declared in mdb.h, which is not among the
  sources. The README and the spec give its layout: \<open>char name[50]\<close> at offset 0 and
  \<open>char msg[200]\<close> at offset 50, 250 bytes in all.
\<close>

record MdbRec =
  name :: "byte list"
  msg :: "byte list"

definition sizeof_MdbRec :: nat where
  "sizeof_MdbRec = 250"

text \<open>
  \<open>fread(&record, sizeof(record), 1, filePointer)\<close>: one whole record or none. A
  short block at the end of the stream is consumed and dropped, the call returns 0, and
  the error indicator is set only when the stream ended in a read error.
\<close>

definition fread_MdbRec :: "FILE \<Rightarrow> MdbRec option \<times> FILE" where
  "fread_MdbRec fp =
     (if sizeof_MdbRec \<le> length (unread fp)
      then (Some \<lparr>name = take 50 (unread fp), msg = take 200 (drop 50 (unread fp))\<rparr>,
            fp\<lparr>unread := drop sizeof_MdbRec (unread fp)\<rparr>)
      else (None, fp\<lparr>unread := [], error_flag := (error_flag fp \<or> ending fp = ReadError)\<rparr>))"

text \<open>
  \<open>fgets(buf, n, stream)\<close> stores at most \<open>n - 1\<close> bytes, stopping after a
  newline. \<open>read_line\<close> is what it takes from the bytes at hand.
\<close>

fun read_line :: "nat \<Rightarrow> byte list \<Rightarrow> byte list" where
  "read_line 0 bs = []"
| "read_line (Suc n) [] = []"
| "read_line (Suc n) (b # bs) = (if b = LF then [b] else b # read_line n bs)"

text \<open>
  When the bytes at hand run out before a newline or the limit, the stream's ending
  decides: at end of file \<open>fgets\<close> returns what it has read, or NULL when that is
  nothing; on a read error it returns NULL and sets the error indicator. The server
  calls it with \<open>n = 1000\<close>; the definition is for buffers of two bytes or more.
\<close>

definition fgets :: "nat \<Rightarrow> FILE \<Rightarrow> byte list option \<times> FILE" where
  "fgets n fp =
     (let line = read_line (n - 1) (unread fp)
      in if line \<noteq> [] \<and> (last line = LF \<or> length line = n - 1)
         then (Some line, fp\<lparr>unread := drop (length line) (unread fp)\<rparr>)
         else (case ending fp of
                 EndOfFile \<Rightarrow> (if line = [] then None else Some line, fp\<lparr>unread := []\<rparr>)
               | ReadError \<Rightarrow> (None, fp\<lparr>unread := [], error_flag := True\<rparr>)))"

text \<open>
  The client socket as the server sees it while writing. \<open>plan\<close> is the environment:
  what the \<open>k\<close>-th call of \<open>send\<close> on this socket does. \<open>sent\<close> records the
  buffer of every call in order, \<open>wire\<close> the bytes the socket accepted, and \<open>errlog\<close>
  the lines written to the process's error stream.
\<close>

datatype send_outcome = Sent | Short nat | Failed

record io =
  plan :: "nat \<Rightarrow> send_outcome"
  sent :: "byte list list"
  wire :: "byte list"
  errlog :: "string list"

definition send :: "io \<Rightarrow> byte list \<Rightarrow> int \<times> io" where
  "send s buf =
     (let r = (case plan s (length (sent s)) of
                 Sent \<Rightarrow> int (length buf)
               | Short n \<Rightarrow> int (min n (length buf))
               | Failed \<Rightarrow> - 1)
      in (r, s\<lparr>sent := sent s @ [buf], wire := wire s @ take (nat r) buf\<rparr>))"

definition perror :: "io \<Rightarrow> string \<Rightarrow> io" where
  "perror s message = s\<lparr>errlog := errlog s @ [message]\<rparr>"

section \<open>processClientRequest\<close>

subsection \<open>Loading the records (lines 103 to 133)\<close>

text \<open>
  Modelled from the spec: \<open>addAfter\<close> is declared in mylist.h, which is not among the
  sources. The spec has each record read "appended to the sequence, preserving order";
  the caller passes the node added last, so the new node goes to the end of the list.
  It allocates one node and returns NULL (here \<open>None\<close>) when no memory is left.
  \<open>heap\<close> counts the allocations that will still succeed.
\<close>

definition addAfter :: "MdbRec list \<Rightarrow> nat \<Rightarrow> MdbRec \<Rightarrow> (MdbRec list \<times> nat) option" where
  "addAfter recordList heap recordCopy =
     (if heap = 0 then None else Some (recordList @ [recordCopy], heap - 1))"

function load_records :: "FILE \<Rightarrow> nat \<Rightarrow> MdbRec list \<Rightarrow> error + (MdbRec list \<times> FILE)" where
  "load_records filePointer heap recordList =
     (case fread_MdbRec filePointer of
        (None, fp') \<Rightarrow> Inr (recordList, fp')
      | (Some recordCopy, fp') \<Rightarrow>
          if heap = 0 then terminate ''Memory allocation failed''
          else (case addAfter recordList (heap - 1) recordCopy of
                  None \<Rightarrow> terminate ''Failed to add record to list''
                | Some (recordList', heap') \<Rightarrow> load_records fp' heap' recordList'))"
  by pat_completeness auto
termination
  by (relation "measure (\<lambda>(fp, heap, recordList). length (unread fp))")
     (auto simp: fread_MdbRec_def sizeof_MdbRec_def split: if_splits)

declare load_records.simps [simp del]

text \<open>
  Lines 103 to 133 as a whole: \<open>databaseFile\<close> is what \<open>fopen\<close> gives for the path,
  \<open>None\<close> when the file cannot be opened.
\<close>

definition load_store :: "FILE option \<Rightarrow> nat \<Rightarrow> error + MdbRec list" where
  "load_store databaseFile heap =
     (case databaseFile of
        None \<Rightarrow> terminate ''Failed to open database file''
      | Some filePointer \<Rightarrow>
          (case load_records filePointer heap [] of
             Inl e \<Rightarrow> Inl e
           | Inr (recordList, fp') \<Rightarrow>
               if ferror fp' then terminate ''Error reading database file''
               else Inr recordList))"

subsection \<open>Answering one query (lines 150 to 180)\<close>

text \<open>
  Lines 151 to 155. \<open>queryLine\<close> is the line \<open>fgets\<close> read; the buffer holds it
  followed by a NUL. \<open>searchKey\<close> is an array of \<open>MAX_KEY_LENGTH + 1\<close> bytes.
  \<open>lastChar\<close> is \<open>strlen(searchKey) - 1\<close> in \<open>size_t\<close>, which wraps to \<open>SIZE_MAX\<close>
  when the string is empty; the read \<open>searchKey[lastChar]\<close> is then outside the array.
  The result is the string left in \<open>searchKey\<close>.
\<close>

definition copy_key :: "byte list \<Rightarrow> byte list" where
  "copy_key queryLine = strncpy (queryLine @ [NUL]) MAX_KEY_LENGTH @ [NUL]"

definition last_index :: "byte list \<Rightarrow> nat" where
  "last_index searchKey = (strlen searchKey + SIZE_MAX) mod (SIZE_MAX + 1)"

definition extract_key :: "byte list \<Rightarrow> error + byte list" where
  "extract_key queryLine =
     (let searchKey = copy_key queryLine;
          lastChar = last_index searchKey
      in if lastChar < length searchKey
         then Inr (takeWhile (\<lambda>c. c \<noteq> NUL)
                    (if searchKey ! lastChar = LF then searchKey[lastChar := NUL] else searchKey))
         else Inl OutOfBounds)"

text \<open>
  Lines 158 to 175, the walk over the list. Both fields of the record at hand are read
  as strings: by \<open>strstr\<close>, and by \<open>sprintf\<close> when the record matches. A failed
  \<open>send\<close> leaves the walk (\<open>break\<close>); otherwise \<open>recordCount++\<close> follows.
\<close>

fun search_loop :: "MdbRec list \<Rightarrow> int \<Rightarrow> byte list \<Rightarrow> io \<Rightarrow> error + io" where
  "search_loop [] recordCount searchKey s = Inr s"
| "search_loop (currentRecord # rest) recordCount searchKey s =
     (case (c_string (name currentRecord), c_string (msg currentRecord)) of
        (Some nm, Some ms) \<Rightarrow>
          if strstr nm searchKey \<noteq> None \<or> strstr ms searchKey \<noteq> None
          then (let resultBuffer = format_result recordCount nm ms;
                    (sendResult, s') = send s resultBuffer
                in if sendResult \<noteq> int (length resultBuffer)
                   then Inr (perror s' ''send() failed'')
                   else if recordCount = INT_MAX then Inl SignedOverflow
                   else search_loop rest (recordCount + 1) searchKey s')
          else if recordCount = INT_MAX then Inl SignedOverflow
          else search_loop rest (recordCount + 1) searchKey s
      | _ \<Rightarrow> Inl OutOfBounds)"

text \<open>Lines 178 to 180, the blank line after the results.\<close>

definition send_blank :: "io \<Rightarrow> io" where
  "send_blank s =
     (let resultBuffer = [LF];
          (sendResult, s') = send s resultBuffer
      in if sendResult \<noteq> int (length resultBuffer) then perror s' ''send() failed'' else s')"

text \<open>The body of the loop over the client's lines.\<close>

definition handle_query :: "MdbRec list \<Rightarrow> byte list \<Rightarrow> io \<Rightarrow> error + io" where
  "handle_query recordList queryLine s =
     (case extract_key queryLine of
        Inl e \<Rightarrow> Inl e
      | Inr searchKey \<Rightarrow>
          (case search_loop recordList 1 searchKey s of
             Inl e \<Rightarrow> Inl e
           | Inr s' \<Rightarrow> Inr (send_blank s')))"

subsection \<open>The session (lines 148 to 194)\<close>

function query_loop :: "MdbRec list \<Rightarrow> FILE \<Rightarrow> io \<Rightarrow> error + (FILE \<times> io)" where
  "query_loop recordList clientInput s =
     (case fgets 1000 clientInput of
        (None, clientInput') \<Rightarrow> Inr (clientInput', s)
      | (Some queryLine, clientInput') \<Rightarrow>
          (case handle_query recordList queryLine s of
             Inl e \<Rightarrow> Inl e
           | Inr s' \<Rightarrow> query_loop recordList clientInput' s'))"
  by pat_completeness auto
termination
proof (relation "measure (\<lambda>(recordList, clientInput, s). length (unread clientInput))",
       goal_cases)
  case 1
  show ?case by simp
next
  case 2
  have nonempty: "read_line n bs \<noteq> [] \<Longrightarrow> bs \<noteq> []" for n bs
    by (cases n; cases bs) simp_all
  have shorter: "read_line n bs \<noteq> [] \<Longrightarrow> length bs - length (read_line n bs) < length bs"
    for n bs
    using nonempty [of n bs] by (cases "read_line n bs"; cases bs) simp_all
  from 2 show ?case
    by (auto simp: fgets_def Let_def shorter dest: nonempty split: if_splits stream_end.splits)
qed

declare query_loop.simps [simp del]

text \<open>
  A connection as \<open>accept\<close> hands it over: the peer's address, the bytes the client
  will send and how its stream ends, what each \<open>send\<close> will do, and whether \<open>fdopen\<close>
  on the socket succeeds.
\<close>

record client =
  peer :: string
  request :: "byte list"
  request_end :: stream_end
  send_plan :: "nat \<Rightarrow> send_outcome"
  fdopen_ok :: bool

text \<open>
  The whole function. \<open>stderr\<close> is the error stream so far. The result is \<open>Inl\<close>
  when the process has exited and \<open>Inr\<close> when the function returns to its caller.
\<close>

definition processClientRequest ::
    "client \<Rightarrow> FILE option \<Rightarrow> nat \<Rightarrow> string list \<Rightarrow> error + io" where
  "processClientRequest clientSocket databaseFile heap stderr =
     (case load_store databaseFile heap of
        Inl e \<Rightarrow> Inl e
      | Inr recordList \<Rightarrow>
          if \<not> fdopen_ok clientSocket
          then terminate ''Failed to associate file stream with socket''
          else (case query_loop recordList
                       \<lparr>unread = request clientSocket, ending = request_end clientSocket,
                        error_flag = False\<rparr>
                       \<lparr>plan = send_plan clientSocket, sent = [], wire = [],
                        errlog = stderr\<rparr> of
                  Inl e \<Rightarrow> Inl e
                | Inr (clientInput', s) \<Rightarrow>
                    Inr (if ferror clientInput' then perror s ''fgets() failed'' else s)))"

section \<open>The accept loop of main (lines 79 to 95)\<close>

text \<open>
  The loop never ends by itself. \<open>accept_loop\<close> runs it over the connection attempts
  that have arrived so far: \<open>Inr\<close> is the server back in \<open>accept\<close>, with the
  sessions it has served and its error stream; \<open>Inl\<close> is the process gone.
\<close>

datatype accept_event = AcceptFailed | Accepted client

fun accept_loop ::
    "FILE option \<Rightarrow> nat \<Rightarrow> accept_event list \<Rightarrow> io list \<Rightarrow> string list
      \<Rightarrow> error + (io list \<times> string list)" where
  "accept_loop databaseFile heap [] served stderr = Inr (served, stderr)"
| "accept_loop databaseFile heap (AcceptFailed # events) served stderr =
     terminate ''accept() failed''"
| "accept_loop databaseFile heap (Accepted clientSocket # events) served stderr =
     (case processClientRequest clientSocket databaseFile heap
             (stderr @ [''Connection established with: '' @ peer clientSocket]) of
        Inl e \<Rightarrow> Inl e
      | Inr s \<Rightarrow>
          accept_loop databaseFile heap events (served @ [s])
            (errlog s @ [''Connection terminated from: '' @ peer clientSocket]))"

section \<open>Notions used to state the properties\<close>

text \<open>
  The string in each field of a record; the records whose arrays have the sizes of
  \<open>struct MdbRec\<close>; and the records whose two arrays both hold a NUL. A store is well
  formed when every record has these sizes and is terminated this way, and the counter
  \<open>recordCount\<close> stays below \<open>INT_MAX\<close> during a walk; on any other store the C code
  reads past an array or overflows the counter.
\<close>

definition name_str :: "MdbRec \<Rightarrow> byte list" where
  "name_str r = takeWhile (\<lambda>c. c \<noteq> NUL) (name r)"

definition msg_str :: "MdbRec \<Rightarrow> byte list" where
  "msg_str r = takeWhile (\<lambda>c. c \<noteq> NUL) (msg r)"

definition terminated :: "MdbRec \<Rightarrow> bool" where
  "terminated r \<longleftrightarrow> NUL \<in> set (name r) \<and> NUL \<in> set (msg r)"

definition well_sized :: "MdbRec \<Rightarrow> bool" where
  "well_sized r \<longleftrightarrow> length (name r) = 50 \<and> length (msg r) = 200"

definition wf_store :: "MdbRec list \<Rightarrow> bool" where
  "wf_store store \<longleftrightarrow>
     list_all well_sized store \<and> list_all terminated store \<and> int (length store) < INT_MAX"

text \<open>
  The search as the specification words it: a record matches when the key is a
  contiguous part (\<open>sublist\<close>, compared byte by byte) of its name or of its message,
  and the matches are the records of the store, numbered from \<open>k\<close>, that match.
  \<open>result_line\<close> is the line sent for a numbered record.
\<close>

definition spec_matches :: "byte list \<Rightarrow> MdbRec \<Rightarrow> bool" where
  "spec_matches key r \<longleftrightarrow> sublist key (name_str r) \<or> sublist key (msg_str r)"

definition spec_search :: "nat \<Rightarrow> MdbRec list \<Rightarrow> byte list \<Rightarrow> (nat \<times> MdbRec) list" where
  "spec_search k store key = filter (\<lambda>(i, r). spec_matches key r) (enumerate k store)"

definition result_line :: "nat \<times> MdbRec \<Rightarrow> byte list" where
  "result_line p = format_result (int (fst p)) (name_str (snd p)) (msg_str (snd p))"

text \<open>
  Reading a string of decimal digits back as a number, to say which ordinal a result
  line shows.
\<close>

definition digit_value :: "byte \<Rightarrow> nat" where
  "digit_value c = of_char c - 48"

definition read_decimal :: "byte list \<Rightarrow> nat" where
  "read_decimal cs = foldl (\<lambda>acc c. 10 * acc + digit_value c) 0 cs"

text \<open>
  Sending a list of lines one after the other, stopping after the first \<open>send\<close> that
  does not take its whole buffer. \<open>accepts outcome len\<close> says that a call with this
  outcome takes all \<open>len\<close> bytes.
\<close>

fun send_until_fail :: "io \<Rightarrow> byte list list \<Rightarrow> io" where
  "send_until_fail s [] = s"
| "send_until_fail s (l # ls) =
     (if fst (send s l) \<noteq> int (length l) then perror (snd (send s l)) ''send() failed''
      else send_until_fail (snd (send s l)) ls)"

definition accepts :: "send_outcome \<Rightarrow> nat \<Rightarrow> bool" where
  "accepts outcome len = (case outcome of Sent \<Rightarrow> True | Short n \<Rightarrow> len \<le> n | Failed \<Rightarrow> False)"

text \<open>
  The \<open>i\<close>-th block of 250 bytes of a file read as a record, and the records of all
  the whole blocks of a file, in file order.
\<close>

definition record_at :: "byte list \<Rightarrow> nat \<Rightarrow> MdbRec" where
  "record_at bytes i =
     \<lparr>name = take 50 (drop (i * sizeof_MdbRec) bytes),
      msg = take 200 (drop (i * sizeof_MdbRec + 50) bytes)\<rparr>"

definition whole_records :: "byte list \<Rightarrow> MdbRec list" where
  "whole_records bytes = map (record_at bytes) [0..<length bytes div sizeof_MdbRec]"

text \<open>
  Concrete inputs for the examples: a record written the way the database tools write
  it, the fields padded with NUL; the two records of the specification's scenario; a
  socket on which every \<open>send\<close> succeeds, and one whose first \<open>send\<close> fails.
\<close>

definition mk_record :: "string \<Rightarrow> string \<Rightarrow> MdbRec" where
  "mk_record nm ms =
     \<lparr>name = nm @ replicate (50 - length nm) NUL, msg = ms @ replicate (200 - length ms) NUL\<rparr>"

definition example_store :: "MdbRec list" where
  "example_store = [mk_record ''Ramya'' ''hi there'', mk_record ''Alex'' ''bye now'']"

definition all_sent :: "nat \<Rightarrow> send_outcome" where
  "all_sent k = Sent"

definition first_fails :: "nat \<Rightarrow> send_outcome" where
  "first_fails k = (if k = 0 then Failed else Sent)"

definition fresh_socket :: "(nat \<Rightarrow> send_outcome) \<Rightarrow> io" where
  "fresh_socket p = \<lparr>plan = p, sent = [], wire = [], errlog = []\<rparr>"

text \<open>The database file that holds the two records of the scenario.\<close>

definition example_file :: "byte list" where
  "example_file = concat (map (\<lambda>r. name r @ msg r) example_store)"

text \<open>A client that sends one whole line and part of another before its stream breaks.\<close>

definition example_client :: client where
  "example_client =
     \<lparr>peer = ''127.0.0.1'', request = ''Ra'' @ [LF] @ ''Al'', request_end = ReadError,
      send_plan = all_sent, fdopen_ok = True\<rparr>"

section \<open>Strings and the search key\<close>

lemma takeWhile_upto_NUL:
  "\<forall>x\<in>set xs. x \<noteq> NUL \<Longrightarrow> takeWhile (\<lambda>c. c \<noteq> NUL) (xs @ NUL # ys) = xs"
  by (induction xs) simp_all

lemma takeWhile_snoc_NUL:
  "takeWhile (\<lambda>c. c \<noteq> NUL) (xs @ [NUL]) = takeWhile (\<lambda>c. c \<noteq> NUL) xs"
  by (induction xs) simp_all

lemma take_takeWhile_commute: "take n (takeWhile P xs) = takeWhile P (take n xs)"
proof (induction xs arbitrary: n)
  case Nil
  show ?case by simp
next
  case (Cons x xs)
  then show ?case by (cases n) simp_all
qed

lemma length_c_string:
  "NUL \<in> set arr \<Longrightarrow> length (takeWhile (\<lambda>c. c \<noteq> NUL) arr) < length arr"
  by (induction arr) auto

lemma copy_key_eq:
  "copy_key queryLine =
     take 5 (takeWhile (\<lambda>c. c \<noteq> NUL) queryLine)
       @ NUL # replicate (5 - length (takeWhile (\<lambda>c. c \<noteq> NUL) queryLine)) NUL"
  by (simp add: copy_key_def strncpy_def Let_def MAX_KEY_LENGTH_def takeWhile_snoc_NUL
        replicate_append_same)

lemma length_copy_key: "length (copy_key queryLine) = 6"
  by (simp add: copy_key_eq)

lemma strlen_copy_key:
  "strlen (copy_key queryLine) = length (take 5 (takeWhile (\<lambda>c. c \<noteq> NUL) queryLine))"
proof -
  have "\<forall>x\<in>set (take 5 (takeWhile (\<lambda>c. c \<noteq> NUL) queryLine)). x \<noteq> NUL"
    by (auto dest: in_set_takeD set_takeWhileD)
  then show ?thesis
    unfolding strlen_def copy_key_eq by (simp only: takeWhile_upto_NUL)
qed

lemma last_index_pos:
  assumes "0 < strlen buf" and "strlen buf \<le> 6"
  shows "last_index buf = strlen buf - 1"
proof -
  have "strlen buf + SIZE_MAX = (strlen buf - 1) + (SIZE_MAX + 1)"
    using assms by simp
  moreover have "strlen buf - 1 < SIZE_MAX + 1"
    using assms by (simp add: SIZE_MAX_def)
  ultimately show ?thesis
    unfolding last_index_def by (simp only: mod_add_self2 mod_less)
qed

lemma last_index_zero: "strlen buf = 0 \<Longrightarrow> last_index buf = SIZE_MAX"
  by (simp add: last_index_def SIZE_MAX_def)

lemma extract_key_eq:
  "extract_key queryLine =
     (let k = take 5 (takeWhile (\<lambda>c. c \<noteq> NUL) queryLine)
      in if k = [] then Inl OutOfBounds
         else Inr (if last k = LF then butlast k else k))"
proof -
  define k where "k = take 5 (takeWhile (\<lambda>c. c \<noteq> NUL) queryLine)"
  define pad where "pad = replicate (5 - length (takeWhile (\<lambda>c. c \<noteq> NUL) queryLine)) NUL"
  have ck: "copy_key queryLine = k @ NUL # pad"
    by (simp add: copy_key_eq k_def pad_def)
  have no_nul: "\<forall>x\<in>set k. x \<noteq> NUL"
    unfolding k_def by (auto dest: in_set_takeD set_takeWhileD)
  have len: "strlen (copy_key queryLine) = length k"
    by (simp add: strlen_copy_key k_def)
  show ?thesis
  proof (cases "k = []")
    case True
    then have "last_index (copy_key queryLine) = SIZE_MAX"
      using len by (simp add: last_index_zero)
    then have "\<not> last_index (copy_key queryLine) < length (copy_key queryLine)"
      by (simp add: length_copy_key SIZE_MAX_def)
    with True show ?thesis
      by (simp add: extract_key_def Let_def k_def [symmetric])
  next
    case False
    then have pos: "0 < length k" by simp
    have "length k \<le> 5" by (simp add: k_def)
    with pos len have li: "last_index (copy_key queryLine) = length k - 1"
      by (simp add: last_index_pos)
    have inb: "length k - 1 < length (copy_key queryLine)"
      using \<open>length k \<le> 5\<close> by (simp add: length_copy_key)
    have at: "copy_key queryLine ! (length k - 1) = last k"
      using False pos by (simp add: ck nth_append last_conv_nth)
    have kb: "k = butlast k @ [last k]"
      using False by simp
    have upd: "(copy_key queryLine)[length k - 1 := NUL] = butlast k @ NUL # NUL # pad"
    proof -
      have "(k @ NUL # pad)[length k - 1 := NUL] = k[length k - 1 := NUL] @ NUL # pad"
        using pos by (simp add: list_update_append)
      also have "k[length k - 1 := NUL] = butlast k @ [NUL]"
        using kb by (metis length_butlast list_update_length)
      finally show ?thesis by (simp add: ck)
    qed
    have nb: "\<forall>x\<in>set (butlast k). x \<noteq> NUL"
      using no_nul by (auto dest: in_set_butlastD)
    have tw1: "takeWhile (\<lambda>c. c \<noteq> NUL) (butlast k @ NUL # NUL # pad) = butlast k"
      using nb by (rule takeWhile_upto_NUL)
    have tw2: "takeWhile (\<lambda>c. c \<noteq> NUL) (k @ NUL # pad) = k"
      using no_nul by (rule takeWhile_upto_NUL)
    have "extract_key queryLine = Inr (if last k = LF then butlast k else k)"
      unfolding extract_key_def Let_def li
      using inb at upd tw1 tw2 ck by simp
    with False show ?thesis
      by (simp add: Let_def k_def [symmetric])
  qed
qed

lemma extract_key_take: "extract_key (take 5 queryLine) = extract_key queryLine"
  by (simp add: extract_key_eq take_takeWhile_commute [symmetric])

lemma extract_key_defined:
  assumes "queryLine \<noteq> []" and "hd queryLine \<noteq> NUL"
  shows "\<exists>key. extract_key queryLine = Inr key"
proof -
  from assms obtain c cs where "queryLine = c # cs" and "c \<noteq> NUL"
    by (cases queryLine) auto
  then show ?thesis
    by (simp add: extract_key_eq Let_def)
qed

lemma extract_key_NUL_first: "extract_key (NUL # rest) = Inl OutOfBounds"
  by (simp add: extract_key_eq)

section \<open>What send leaves behind\<close>

lemma send_fst: "fst (send s buf) = int (length buf) \<longleftrightarrow> accepts (plan s (length (sent s))) (length buf)"
  by (auto simp: send_def accepts_def split: send_outcome.splits)

lemma send_snd [simp]:
  "plan (snd (send s buf)) = plan s"
  "sent (snd (send s buf)) = sent s @ [buf]"
  "errlog (snd (send s buf)) = errlog s"
  by (simp_all add: send_def Let_def)

lemma perror_fields [simp]:
  "plan (perror s m) = plan s"
  "sent (perror s m) = sent s"
  "wire (perror s m) = wire s"
  "errlog (perror s m) = errlog s @ [m]"
  by (simp_all add: perror_def)

lemma send_all_sent:
  "plan s (length (sent s)) = Sent \<Longrightarrow>
   send s buf = (int (length buf), s\<lparr>sent := sent s @ [buf], wire := wire s @ buf\<rparr>)"
  by (simp add: send_def)

lemma send_until_fail_plan [simp]: "plan (send_until_fail s ls) = plan s"
  by (induction ls arbitrary: s) simp_all

lemma send_until_fail_prefix:
  "\<exists>n. sent (send_until_fail s ls) = sent s @ take n ls"
proof (induction ls arbitrary: s)
  case Nil
  show ?case by simp
next
  case (Cons l ls)
  show ?case
  proof (cases "fst (send s l) = int (length l)")
    case True
    from Cons.IH [of "snd (send s l)"] obtain n
      where "sent (send_until_fail (snd (send s l)) ls) = sent (snd (send s l)) @ take n ls"
      by blast
    with True have "sent (send_until_fail s (l # ls)) = sent s @ take (Suc n) (l # ls)"
      by simp
    then show ?thesis by blast
  next
    case False
    then have "sent (send_until_fail s (l # ls)) = sent s @ take (Suc 0) (l # ls)"
      by simp
    then show ?thesis by blast
  qed
qed

lemma send_until_fail_attempts:
  "\<exists>n. (ls \<noteq> [] \<longrightarrow> 0 < n) \<and> sent (send_until_fail s ls) = sent s @ take n ls"
proof (cases ls)
  case Nil
  then show ?thesis by simp
next
  case (Cons l rest)
  show ?thesis
  proof (cases "fst (send s l) = int (length l)")
    case True
    from send_until_fail_prefix [of "snd (send s l)" rest] obtain n
      where "sent (send_until_fail (snd (send s l)) rest) = sent (snd (send s l)) @ take n rest" ..
    with True Cons have "sent (send_until_fail s ls) = sent s @ take (Suc n) ls"
      by simp
    then show ?thesis by blast
  next
    case False
    with Cons have "sent (send_until_fail s ls) = sent s @ take (Suc 0) ls"
      by simp
    then show ?thesis by blast
  qed
qed

lemma send_until_fail_all_sent:
  "\<forall>k. plan s k = Sent \<Longrightarrow>
   send_until_fail s ls = s\<lparr>sent := sent s @ ls, wire := wire s @ concat ls\<rparr>"
proof (induction ls arbitrary: s)
  case Nil
  show ?case by simp
next
  case (Cons l ls)
  then have step: "send s l = (int (length l), s\<lparr>sent := sent s @ [l], wire := wire s @ l\<rparr>)"
    by (simp add: send_all_sent)
  from Cons.prems have "\<forall>k. plan (s\<lparr>sent := sent s @ [l], wire := wire s @ l\<rparr>) k = Sent"
    by simp
  from Cons.IH [OF this] show ?case
    by (simp add: step)
qed

lemma send_until_fail_first_failure:
  "j < length ls \<Longrightarrow>
   \<forall>i<j. accepts (plan s (length (sent s) + i)) (length (ls ! i)) \<Longrightarrow>
   \<not> accepts (plan s (length (sent s) + j)) (length (ls ! j)) \<Longrightarrow>
   sent (send_until_fail s ls) = sent s @ take (Suc j) ls
   \<and> errlog (send_until_fail s ls) = errlog s @ [''send() failed'']"
proof (induction ls arbitrary: s j)
  case Nil
  then show ?case by simp
next
  case (Cons l ls)
  show ?case
  proof (cases j)
    case 0
    with Cons.prems show ?thesis by (simp add: send_fst)
  next
    case (Suc j')
    from Cons.prems(2) Suc have ok: "fst (send s l) = int (length l)"
      by (auto simp: send_fst)
    have "sent (send_until_fail (snd (send s l)) ls) = sent (snd (send s l)) @ take (Suc j') ls
       \<and> errlog (send_until_fail (snd (send s l)) ls) = errlog (snd (send s l)) @ [''send() failed'']"
    proof (rule Cons.IH)
      from Cons.prems(1) Suc show "j' < length ls" by simp
      from Cons.prems(2) Suc
      show "\<forall>i<j'. accepts (plan (snd (send s l)) (length (sent (snd (send s l))) + i)) (length (ls ! i))"
        by (auto dest: spec [of _ "Suc i" for i])
      from Cons.prems(3) Suc
      show "\<not> accepts (plan (snd (send s l)) (length (sent (snd (send s l))) + j')) (length (ls ! j'))"
        by simp
    qed
    with ok Suc show ?thesis by simp
  qed
qed

lemma send_blank_fields [simp]:
  "plan (send_blank s) = plan s"
  "sent (send_blank s) = sent s @ [[LF]]"
  by (simp_all add: send_blank_def Let_def split: prod.splits)
     (auto simp: send_def Let_def perror_def)

lemma send_blank_all_sent:
  "plan s (length (sent s)) = Sent \<Longrightarrow> wire (send_blank s) = wire s @ [LF]"
  by (simp add: send_blank_def send_all_sent Let_def)

section \<open>The walk over the list sends the matches in order\<close>

lemma result_line_pair: "result_line (i, r) = format_result (int i) (name_str r) (msg_str r)"
  by (simp add: result_line_def)

lemma result_line_not_blank: "result_line p \<noteq> [LF]"
  by (simp add: result_line_def format_result_def)

lemma result_line_spelled:
  "result_line (i, r)
     = replicate (4 - length (digits i)) CHR '' '' @ digits i
         @ '': {'' @ name_str r @ ''} said {'' @ msg_str r @ ''}'' @ [LF]"
  by (simp add: result_line_def format_result_def fmt_4d_def fmt_d_def)

lemma strstr_sublist: "strstr haystack needle = None \<longleftrightarrow> \<not> sublist needle haystack"
  by (induction haystack) (auto simp: sublist_Cons_right)

lemma search_empty_key: "spec_search k store [] = enumerate k store"
  by (simp add: spec_search_def spec_matches_def case_prod_beta)

lemma search_loop_refines:
  "list_all terminated store \<Longrightarrow> int k + int (length store) \<le> INT_MAX \<Longrightarrow>
   search_loop store (int k) key s
     = Inr (send_until_fail s (map result_line (spec_search k store key)))"
proof (induction store arbitrary: k s)
  case Nil
  show ?case by (simp add: spec_search_def)
next
  case (Cons r rest)
  from Cons.prems have t: "c_string (name r) = Some (name_str r)" "c_string (msg r) = Some (msg_str r)"
    by (simp_all add: terminated_def c_string_def name_str_def msg_str_def)
  from Cons.prems have ne: "int k \<noteq> INT_MAX" by simp
  from Cons.prems have IH: "search_loop rest (int k + 1) key s'
     = Inr (send_until_fail s' (map result_line (spec_search (Suc k) rest key)))" for s'
    using Cons.IH [of "Suc k" s'] by (simp add: add.commute)
  show ?case
    by (auto simp: t ne IH strstr_sublist spec_search_def spec_matches_def result_line_pair
          Let_def split: prod.splits)
qed

lemma search_loop_from_1:
  assumes "wf_store store"
  shows "search_loop store 1 key s = Inr (send_until_fail s (map result_line (spec_search 1 store key)))"
proof -
  from assms have "list_all terminated store" and "int 1 + int (length store) \<le> INT_MAX"
    by (simp_all add: wf_store_def)
  from search_loop_refines [OF this] show ?thesis by simp
qed

lemma handle_query_run:
  assumes "wf_store store" and "extract_key queryLine = Inr key"
  shows "handle_query store queryLine s
           = Inr (send_blank (send_until_fail s (map result_line (spec_search 1 store key))))"
  using assms by (simp add: handle_query_def search_loop_from_1)

section \<open>A result line fits its buffer\<close>

text \<open>
  \<open>sprintf\<close> writes the line and a NUL into \<open>resultBuffer\<close>, an array of 1000 bytes.
  For a record of a well-formed store the line has fewer than 1000 bytes.
\<close>

lemma length_digits: "0 < k \<Longrightarrow> n < 10 ^ k \<Longrightarrow> length (digits n) \<le> k"
proof (induction k arbitrary: n)
  case 0
  then show ?case by simp
next
  case (Suc k)
  show ?case
  proof (cases "n < 10")
    case True
    then show ?thesis by (subst digits.simps) simp
  next
    case False
    with Suc.prems have k: "0 < k" by (cases k) simp_all
    from Suc.prems have "n div 10 < 10 ^ k"
      by (simp add: less_mult_imp_div_less mult.commute)
    from Suc.IH [OF k this] False show ?thesis
      by (subst digits.simps) simp
  qed
qed

lemma length_fmt_4d:
  assumes "0 \<le> i" and "i \<le> INT_MAX"
  shows "length (fmt_4d i) \<le> 10"
proof -
  from assms have "nat i < 10 ^ 10"
    by (simp add: INT_MAX_def)
  then have "length (digits (nat i)) \<le> 10"
    by (intro length_digits) simp_all
  with assms show ?thesis
    by (simp add: fmt_4d_def fmt_d_def)
qed

lemma result_fits_buffer:
  assumes "well_sized r" and "terminated r" and "0 \<le> recordCount" and "recordCount \<le> INT_MAX"
  shows "length (format_result recordCount (name_str r) (msg_str r)) < 1000"
proof -
  from assms(1,2) have "length (name_str r) < 50" and "length (msg_str r) < 200"
    using length_c_string [of "name r"] length_c_string [of "msg r"]
    by (simp_all add: well_sized_def terminated_def name_str_def msg_str_def)
  with length_fmt_4d [OF assms(3,4)] show ?thesis
    by (simp add: format_result_def)
qed

lemma digit_value_digit_char: "d < 10 \<Longrightarrow> digit_value (digit_char d) = d"
proof -
  assume "d < 10"
  then have "d = 0 \<or> d = 1 \<or> d = 2 \<or> d = 3 \<or> d = 4 \<or> d = 5 \<or> d = 6 \<or> d = 7 \<or> d = 8 \<or> d = 9"
    by presburger
  then show ?thesis
    by (auto simp: digit_char_def digit_value_def)
qed

lemma read_decimal_snoc: "read_decimal (cs @ [c]) = 10 * read_decimal cs + digit_value c"
  by (simp add: read_decimal_def)

lemma read_decimal_digits: "read_decimal (digits n) = n"
proof (induction n rule: digits.induct)
  case (1 n)
  show ?case
  proof (cases "n < 10")
    case True
    then show ?thesis
      by (subst digits.simps) (simp add: read_decimal_def digit_value_digit_char)
  next
    case False
    with "1.IH" have "read_decimal (digits (n div 10)) = n div 10" by simp
    with False show ?thesis
      by (subst digits.simps) (simp add: read_decimal_snoc digit_value_digit_char)
  qed
qed

section \<open>Loading reads the whole blocks of the file\<close>

lemma record_at_drop: "record_at (drop sizeof_MdbRec bytes) i = record_at bytes (Suc i)"
  by (simp add: record_at_def ac_simps)

lemma whole_records_short: "length bytes < sizeof_MdbRec \<Longrightarrow> whole_records bytes = []"
  by (simp add: whole_records_def)

lemma whole_records_step:
  assumes "sizeof_MdbRec \<le> length bytes"
  shows "whole_records bytes
           = \<lparr>name = take 50 bytes, msg = take 200 (drop 50 bytes)\<rparr>
               # whole_records (drop sizeof_MdbRec bytes)"
proof -
  have "length bytes div sizeof_MdbRec = Suc ((length bytes - sizeof_MdbRec) div sizeof_MdbRec)"
    using assms by (simp add: sizeof_MdbRec_def le_div_geq)
  then show ?thesis
    by (simp add: whole_records_def map_upt_Suc record_at_drop del: upt_Suc)
       (simp add: record_at_def)
qed

lemma whole_records_Cons:
  assumes "length (name r) = 50" and "length (msg r) = 200"
  shows "whole_records (name r @ msg r @ rest) = r # whole_records rest"
proof -
  have "sizeof_MdbRec \<le> length (name r @ msg r @ rest)"
    using assms by (simp add: sizeof_MdbRec_def)
  from whole_records_step [OF this] show ?thesis
    using assms by (simp add: sizeof_MdbRec_def)
qed

lemma whole_records_nth:
  "i < length bytes div sizeof_MdbRec \<Longrightarrow> whole_records bytes ! i = record_at bytes i"
  by (simp add: whole_records_def)

lemma length_whole_records: "length (whole_records bytes) = length bytes div sizeof_MdbRec"
  by (simp add: whole_records_def)

lemma well_sized_whole_records: "list_all well_sized (whole_records bytes)"
proof -
  have "well_sized (record_at bytes i)" if "i < length bytes div sizeof_MdbRec" for i
  proof -
    from that have "Suc i \<le> length bytes div sizeof_MdbRec"
      by simp
    then have "Suc i * sizeof_MdbRec \<le> length bytes div sizeof_MdbRec * sizeof_MdbRec"
      by (rule mult_le_mono1)
    also have "\<dots> \<le> length bytes"
      by (rule div_times_less_eq_dividend)
    finally have "i * sizeof_MdbRec + 250 \<le> length bytes"
      by (simp add: sizeof_MdbRec_def)
    then show ?thesis
      by (simp add: well_sized_def record_at_def)
  qed
  then show ?thesis
    by (simp add: whole_records_def list_all_iff)
qed

lemma concat_whole_records:
  "concat (map (\<lambda>r. name r @ msg r) (map (record_at bytes) [0..<n]))
     = take (n * sizeof_MdbRec) bytes"
proof (induction n)
  case 0
  show ?case by simp
next
  case (Suc n)
  have "name (record_at bytes n) @ msg (record_at bytes n)
          = take sizeof_MdbRec (drop (n * sizeof_MdbRec) bytes)"
    by (simp add: record_at_def sizeof_MdbRec_def take_add [of 50 200, simplified] add.commute)
  moreover have "take (Suc n * sizeof_MdbRec) bytes
      = take (n * sizeof_MdbRec) bytes @ take sizeof_MdbRec (drop (n * sizeof_MdbRec) bytes)"
    using take_add [of "n * sizeof_MdbRec" sizeof_MdbRec bytes] by (simp add: add.commute)
  ultimately show ?case
    using Suc by simp
qed

lemma load_records_eq:
  "2 * (length (unread fp) div sizeof_MdbRec) \<le> heap \<Longrightarrow>
   load_records fp heap recordList
     = Inr (recordList @ whole_records (unread fp),
            fp\<lparr>unread := [], error_flag := (error_flag fp \<or> ending fp = ReadError)\<rparr>)"
proof (induction "length (unread fp) div sizeof_MdbRec" arbitrary: fp heap recordList)
  case 0
  then have short: "length (unread fp) < sizeof_MdbRec"
    by (simp add: sizeof_MdbRec_def div_eq_0_iff)
  then show ?case
    by (subst load_records.simps) (simp add: fread_MdbRec_def whole_records_short)
next
  case (Suc n)
  from Suc(2) have long: "sizeof_MdbRec \<le> length (unread fp)"
    by (cases "length (unread fp) < sizeof_MdbRec") (simp_all add: sizeof_MdbRec_def)
  define fp' where "fp' = fp\<lparr>unread := drop sizeof_MdbRec (unread fp)\<rparr>"
  from Suc(2) long have n: "n = length (unread fp') div sizeof_MdbRec"
    by (simp add: fp'_def sizeof_MdbRec_def le_div_geq)
  from Suc(2,3) have heap: "1 < heap" by simp
  define r0 where "r0 = \<lparr>name = take 50 (unread fp), msg = take 200 (drop 50 (unread fp))\<rparr>"
  have fr: "fread_MdbRec fp = (Some r0, fp')"
    using long by (simp add: fread_MdbRec_def r0_def fp'_def)
  have step: "load_records fp heap recordList = load_records fp' (heap - 2) (recordList @ [r0])"
    using heap by (subst load_records.simps) (simp add: fr addAfter_def numeral_2_eq_2)
  from Suc(2,3) n have "2 * (length (unread fp') div sizeof_MdbRec) \<le> heap - 2"
    by simp
  from Suc(1) [OF n this]
  have "load_records fp' (heap - 2) (recordList @ [r0])
     = Inr ((recordList @ [r0]) @ whole_records (unread fp'),
            fp'\<lparr>unread := [], error_flag := (error_flag fp' \<or> ending fp' = ReadError)\<rparr>)" .
  also have "(recordList @ [r0]) @ whole_records (unread fp')
      = recordList @ whole_records (unread fp)"
    by (simp add: whole_records_step [OF long] r0_def fp'_def)
  also have "fp'\<lparr>unread := [], error_flag := (error_flag fp' \<or> ending fp' = ReadError)\<rparr>
      = fp\<lparr>unread := [], error_flag := (error_flag fp \<or> ending fp = ReadError)\<rparr>"
    by (simp add: fp'_def)
  finally show ?case
    by (simp only: step)
qed

lemma load_store_eq:
  assumes "2 * (length bytes div sizeof_MdbRec) \<le> heap"
  shows "load_store (Some \<lparr>unread = bytes, ending = EndOfFile, error_flag = False\<rparr>) heap
           = Inr (whole_records bytes)"
  using assms by (simp add: load_store_def load_records_eq ferror_def)

section \<open>The session ends when the client's stream ends\<close>

lemma read_line_prefix: "prefix (read_line n bs) bs"
  by (induction n bs rule: read_line.induct) simp_all

lemma read_line_subset: "set (read_line n bs) \<subseteq> set bs"
  using read_line_prefix [of n bs] by (rule set_mono_prefix)

lemma fgets_Some:
  assumes "fgets n fp = (Some line, fp')"
  shows "line \<noteq> [] \<and> set line \<subseteq> set (unread fp) \<and> set (unread fp') \<subseteq> set (unread fp)
         \<and> ending fp' = ending fp \<and> error_flag fp' = error_flag fp"
  using assms read_line_subset [of "n - 1" "unread fp"]
  by (auto simp: fgets_def Let_def split: if_splits stream_end.splits dest: in_set_dropD)

lemma fgets_None:
  assumes "fgets n fp = (None, fp')"
  shows "error_flag fp' = (error_flag fp \<or> ending fp = ReadError) \<and> ending fp' = ending fp"
  using assms
  by (auto simp: fgets_def Let_def split: if_splits stream_end.splits)

lemma query_loop_total:
  "wf_store store \<Longrightarrow> NUL \<notin> set (unread clientInput) \<Longrightarrow>
   \<exists>clientInput' s'. query_loop store clientInput s = Inr (clientInput', s')
      \<and> error_flag clientInput' = (error_flag clientInput \<or> ending clientInput = ReadError)"
proof (induction store clientInput s rule: query_loop.induct)
  case (1 recordList clientInput s)
  obtain res fp' where fg: "fgets 1000 clientInput = (res, fp')"
    by (cases "fgets 1000 clientInput")
  show ?case
  proof (cases res)
    case None
    with fg fgets_None [of 1000 clientInput fp'] show ?thesis
      by (subst query_loop.simps) simp
  next
    case (Some queryLine)
    with fg have fs: "fgets 1000 clientInput = (Some queryLine, fp')" by simp
    note facts = fgets_Some [OF fs]
    from facts "1.prems"(2) have "queryLine \<noteq> []" and "hd queryLine \<noteq> NUL"
      by (auto dest: hd_in_set)
    from extract_key_defined [OF this] obtain key where "extract_key queryLine = Inr key" ..
    from handle_query_run [OF "1.prems"(1) this]
    obtain s1 where hq: "handle_query recordList queryLine s = Inr s1" by blast
    from facts "1.prems"(2) have "NUL \<notin> set (unread fp')" by auto
    from "1.IH" [OF fs [symmetric] refl hq "1.prems"(1) this]
    obtain fp2 s2 where "query_loop recordList fp' s1 = Inr (fp2, s2)"
      and "error_flag fp2 = (error_flag fp' \<or> ending fp' = ReadError)"
      by blast
    with fs hq facts show ?thesis
      by (subst query_loop.simps) simp
  qed
qed

section \<open>Evaluating the examples\<close>

lemma takeWhile_padding:
  "NUL \<notin> set xs \<Longrightarrow> 0 < n \<Longrightarrow>
   takeWhile (\<lambda>c. c \<noteq> NUL) (xs @ replicate n NUL) = xs"
  by (cases n) (auto intro!: takeWhile_upto_NUL)

lemma mk_record_strings:
  "length nm < 50 \<Longrightarrow> NUL \<notin> set nm \<Longrightarrow> c_string (name (mk_record nm ms)) = Some nm"
  "length ms < 200 \<Longrightarrow> NUL \<notin> set ms \<Longrightarrow> c_string (msg (mk_record nm ms)) = Some ms"
  "length nm < 50 \<Longrightarrow> NUL \<notin> set nm \<Longrightarrow> name_str (mk_record nm ms) = nm"
  "length ms < 200 \<Longrightarrow> NUL \<notin> set ms \<Longrightarrow> msg_str (mk_record nm ms) = ms"
  by (simp_all add: mk_record_def c_string_def name_str_def msg_str_def takeWhile_padding)

lemma mk_record_terminated:
  "length nm < 50 \<Longrightarrow> length ms < 200 \<Longrightarrow> terminated (mk_record nm ms)"
  by (simp add: mk_record_def terminated_def)

lemma mk_record_lengths:
  "length nm \<le> 50 \<Longrightarrow> length (name (mk_record nm ms)) = 50"
  "length ms \<le> 200 \<Longrightarrow> length (msg (mk_record nm ms)) = 200"
  by (simp_all add: mk_record_def)

lemma wf_example_store: "wf_store example_store"
  by (simp add: wf_store_def example_store_def well_sized_def mk_record_lengths
        mk_record_terminated INT_MAX_def)

lemma enumerate_example_store:
  "enumerate (Suc 0) example_store
     = [(1, mk_record ''Ramya'' ''hi there''), (2, mk_record ''Alex'' ''bye now'')]"
  by (simp add: example_store_def)

lemma length_example_store: "length example_store = 2"
  by (simp add: example_store_def)

lemma plan_fresh_socket [simp]: "plan (fresh_socket p) = p"
  by (simp add: fresh_socket_def)

lemma sent_fresh_socket [simp]: "sent (fresh_socket p) = []"
  by (simp add: fresh_socket_def)

lemma read_line_eval:
  "read_line n [] = []"
  "read_line n (b # bs) = (if n = 0 then [] else if b = LF then [b] else b # read_line (n - 1) bs)"
  by (cases n; simp)+

lemma fmt_4d_1: "fmt_4d 1 = ''   1''"
  by (simp add: fmt_4d_def fmt_d_def digits.simps digit_char_def numeral_3_eq_3)

lemma fmt_4d_2: "fmt_4d 2 = ''   2''"
  by (simp add: fmt_4d_def fmt_d_def digits.simps digit_char_def numeral_3_eq_3)

lemma digits_2: "digits 2 = ''2''"
  by (simp add: digits.simps digit_char_def)

lemma example_query_Ramya:
  "handle_query example_store (''Ramya'' @ [LF]) (fresh_socket all_sent)
     = Inr \<lparr>plan = all_sent,
            sent = [''   1: {Ramya} said {hi there}'' @ [LF], [LF]],
            wire = ''   1: {Ramya} said {hi there}'' @ [LF, LF],
            errlog = []\<rparr>"
  by (simp add: handle_query_def extract_key_eq example_store_def mk_record_strings
        format_result_def fmt_4d_1 fmt_4d_2 INT_MAX_def send_def send_blank_def
        fresh_socket_def all_sent_def Let_def)

lemma example_query_lowercase:
  "handle_query example_store (''ramya'' @ [LF]) (fresh_socket all_sent)
     = Inr \<lparr>plan = all_sent, sent = [[LF]], wire = [LF], errlog = []\<rparr>"
  by (simp add: handle_query_def extract_key_eq example_store_def mk_record_strings
        INT_MAX_def send_def send_blank_def fresh_socket_def all_sent_def Let_def)

lemma spec_search_example_e:
  "spec_search (Suc 0) example_store ''e''
     = [(1, mk_record ''Ramya'' ''hi there''), (2, mk_record ''Alex'' ''bye now'')]"
  by (simp add: spec_search_def spec_matches_def enumerate_example_store mk_record_strings
        sublist_code)

lemma matches_example_Alex:
  "filter (\<lambda>(i, r). sublist ''Alex'' (name_str r) \<or> sublist ''Alex'' (msg_str r))
     (enumerate 1 example_store) = [(2, mk_record ''Alex'' ''bye now'')]"
  by (simp add: enumerate_example_store mk_record_strings sublist_code)

lemma length_example_file: "length example_file = 500"
  by (simp add: example_file_def example_store_def mk_record_def)

lemma whole_records_example_file: "whole_records example_file = example_store"
  by (simp add: example_file_def example_store_def whole_records_Cons
        whole_records_Cons [where rest = "[]", simplified] mk_record_lengths
        whole_records_short sizeof_MdbRec_def)

lemma load_example_file:
  "load_store (Some \<lparr>unread = example_file, ending = EndOfFile, error_flag = False\<rparr>) 4
     = Inr example_store"
  by (simp add: load_store_eq length_example_file sizeof_MdbRec_def whole_records_example_file)

section \<open>The properties\<close>

text \<open>
  Claim C1. For every query line, after the result lines (any number of them, also
  none) the server sends exactly one blank line. On a well-formed store, for a line
  \<open>fgets\<close> can return (not empty) whose first byte is not NUL, the buffers passed to
  \<open>send\<close> while the line is handled are the result lines followed by one buffer
  holding a newline alone, and no result line is such a buffer. This holds for every
  behaviour of the socket; when every \<open>send\<close> succeeds, the bytes that reach the client
  are the result lines and then the newline.
\<close>

theorem blank_line_after_results:
  assumes "wf_store store" and "queryLine \<noteq> []" and "hd queryLine \<noteq> NUL"
  shows "\<exists>s' results. handle_query store queryLine s = Inr s'
           \<and> sent s' = sent s @ results @ [[LF]]
           \<and> [LF] \<notin> set results
           \<and> ((\<forall>k. plan s k = Sent) \<longrightarrow> wire s' = wire s @ concat results @ [LF])"
proof -
  from extract_key_defined [OF assms(2,3)] obtain key where key: "extract_key queryLine = Inr key" ..
  define L where "L = map result_line (spec_search 1 store key)"
  define s1 where "s1 = send_until_fail s L"
  have run: "handle_query store queryLine s = Inr (send_blank s1)"
    by (simp add: handle_query_def key search_loop_from_1 [OF assms(1)] s1_def L_def)
  from send_until_fail_prefix [of s L] obtain n where n: "sent s1 = sent s @ take n L"
    unfolding s1_def ..
  have "[LF] \<notin> set (take n L)"
    by (auto simp: L_def result_line_not_blank [THEN not_sym] dest!: in_set_takeD)
  moreover have "sent (send_blank s1) = sent s @ take n L @ [[LF]]"
    by (simp add: n)
  moreover have "wire (send_blank s1) = wire s @ concat (take n L) @ [LF]"
    if all: "\<forall>k. plan s k = Sent"
  proof -
    from all have eq: "s1 = s\<lparr>sent := sent s @ L, wire := wire s @ concat L\<rparr>"
      unfolding s1_def by (rule send_until_fail_all_sent)
    with n have "take n L = L" by simp
    moreover from eq all have "wire (send_blank s1) = wire s @ concat L @ [LF]"
      by (simp add: send_blank_all_sent)
    ultimately show ?thesis by simp
  qed
  ultimately show ?thesis
    using run by blast
qed

theorem blank_line_after_results_witness:
  "wf_store example_store \<and> ''Ramya'' @ [LF] \<noteq> [] \<and> hd (''Ramya'' @ [LF]) \<noteq> NUL
   \<and> (\<forall>k. plan (fresh_socket all_sent) k = Sent)
   \<and> (\<exists>s' results. handle_query example_store (''Ramya'' @ [LF]) (fresh_socket all_sent) = Inr s'
        \<and> sent s' = results @ [[LF]] \<and> [LF] \<notin> set results
        \<and> wire s' = concat results @ [LF])"
  using blank_line_after_results [of example_store "''Ramya'' @ [LF]" "fresh_socket all_sent"]
  by (simp add: wf_example_store fresh_socket_def all_sent_def)

text \<open>
  Claim C2. A record appears in the results exactly when the key is a substring,
  compared byte by byte and so case-sensitively, of its name or of its message. On a
  well-formed store, with every \<open>send\<close> succeeding, the walk sends the result lines of
  exactly the numbered records that satisfy this condition, in store order.
\<close>

theorem match_iff_substring:
  assumes "wf_store store" and "\<forall>k. plan s k = Sent"
  shows "\<exists>s'. search_loop store 1 key s = Inr s'
           \<and> sent s' = sent s @ map result_line
                 (filter (\<lambda>(i, r). sublist key (name_str r) \<or> sublist key (msg_str r))
                    (enumerate 1 store))"
  using assms
  by (simp add: search_loop_from_1 send_until_fail_all_sent spec_search_def spec_matches_def)

theorem match_iff_substring_witness:
  "wf_store example_store \<and> (\<forall>k. plan (fresh_socket all_sent) k = Sent)
   \<and> (\<exists>s'. search_loop example_store 1 ''now'' (fresh_socket all_sent) = Inr s'
        \<and> sent s' = [''   2: {Alex} said {bye now}'' @ [LF]])"
  using match_iff_substring [of example_store "fresh_socket all_sent" "''now''"]
  by (simp add: wf_example_store all_sent_def enumerate_example_store
        mk_record_strings sublist_code result_line_def format_result_def fmt_4d_2)

text \<open>
  Claim C3. The ordinal in a result line is the record's position in the whole store,
  counted from 1, however many records before it matched. On a well-formed store, with
  \<open>matches\<close> the numbered records of the store that match the key, the walk sends the
  lines of a leading part \<open>hits\<close> of \<open>matches\<close>: all of it when every \<open>send\<close>
  succeeds, and at least its first line whatever the socket does. The line of a pair
  \<open>(i, r)\<close> starts with the decimal digits of \<open>i\<close>, padded with spaces to four
  columns, which read back as \<open>i\<close>; \<open>r\<close> is the record at index \<open>i - 1\<close> of the
  store, and the ordinals increase along the lines.
\<close>

theorem ordinal_is_store_position:
  assumes "wf_store store"
    and "matches = filter (\<lambda>(i, r). sublist key (name_str r) \<or> sublist key (msg_str r))
                     (enumerate 1 store)"
  shows "\<exists>s' hits. search_loop store 1 key s = Inr s'
           \<and> sent s' = sent s @ map (\<lambda>(i, r). replicate (4 - length (digits i)) CHR '' '' @ digits i
                                        @ '': {'' @ name_str r @ ''} said {'' @ msg_str r @ ''}''
                                        @ [LF]) hits
           \<and> prefix hits matches
           \<and> (matches \<noteq> [] \<longrightarrow> hits \<noteq> [])
           \<and> ((\<forall>k. plan s k = Sent) \<longrightarrow> hits = matches)
           \<and> (\<forall>(i, r)\<in>set hits. 1 \<le> i \<and> i \<le> length store \<and> store ! (i - 1) = r
                                   \<and> read_decimal (digits i) = i)
           \<and> sorted_wrt (<) (map fst hits)"
proof -
  have m: "matches = spec_search 1 store key"
    by (simp add: assms(2) spec_search_def spec_matches_def)
  define s' where "s' = send_until_fail s (map result_line matches)"
  from send_until_fail_attempts [of "map result_line matches" s] obtain n
    where pos: "matches \<noteq> [] \<longrightarrow> 0 < n"
      and n: "sent s' = sent s @ take n (map result_line matches)"
    unfolding s'_def by auto
  define hits where "hits = take n matches"
  have run: "search_loop store 1 key s = Inr s'"
    by (simp add: search_loop_from_1 [OF assms(1)] s'_def m)
  have fmt: "map result_line hits
      = map (\<lambda>(i, r). replicate (4 - length (digits i)) CHR '' '' @ digits i
                        @ '': {'' @ name_str r @ ''} said {'' @ msg_str r @ ''}'' @ [LF]) hits"
    by (rule map_cong) (auto simp: result_line_spelled)
  have out: "sent s' = sent s @ map (\<lambda>(i, r). replicate (4 - length (digits i)) CHR '' '' @ digits i
                        @ '': {'' @ name_str r @ ''} said {'' @ msg_str r @ ''}'' @ [LF]) hits"
    unfolding fmt [symmetric] by (simp add: n hits_def take_map)
  have pre: "prefix hits matches"
    unfolding hits_def by (rule take_is_prefix)
  have ne: "matches \<noteq> [] \<longrightarrow> hits \<noteq> []"
    using pos by (auto simp: hits_def)
  have full: "(\<forall>k. plan s k = Sent) \<longrightarrow> hits = matches"
  proof
    assume "\<forall>k. plan s k = Sent"
    then have "sent s' = sent s @ map result_line matches"
      unfolding s'_def by (simp add: send_until_fail_all_sent)
    with n have "take n (map result_line matches) = map result_line matches"
      by simp
    then have "length matches \<le> n"
      by (metis length_map length_take min.absorb_iff1 min.commute)
    then show "hits = matches"
      by (simp add: hits_def)
  qed
  have sub: "set hits \<subseteq> set (enumerate 1 store)"
    by (auto simp: hits_def assms(2) dest!: in_set_takeD)
  have place: "\<forall>(i, r)\<in>set hits. 1 \<le> i \<and> i \<le> length store \<and> store ! (i - 1) = r
                                   \<and> read_decimal (digits i) = i"
    using sub by (auto simp: in_set_enumerate_eq read_decimal_digits)
  have "sorted_wrt (\<lambda>x y. fst x < fst y) (enumerate 1 store)"
    unfolding sorted_wrt_map [symmetric] by (simp only: map_fst_enumerate sorted_wrt_upt)
  then have "sorted_wrt (\<lambda>x y. fst x < fst y) matches"
    unfolding assms(2) by (rule sorted_wrt_filter)
  then have "sorted_wrt (\<lambda>x y. fst x < fst y) hits"
    unfolding hits_def by (rule sorted_wrt_take)
  then have srt: "sorted_wrt (<) (map fst hits)"
    by (simp add: sorted_wrt_map)
  from run out pre ne full place srt show ?thesis
    by (intro exI [of _ s'] exI [of _ hits] conjI)
qed

theorem ordinal_is_store_position_witness:
  "wf_store example_store
   \<and> [(2, mk_record ''Alex'' ''bye now'')]
       = filter (\<lambda>(i, r). sublist ''Alex'' (name_str r) \<or> sublist ''Alex'' (msg_str r))
           (enumerate 1 example_store)
   \<and> (\<forall>k. plan (fresh_socket all_sent) k = Sent)
   \<and> (\<exists>s'. search_loop example_store 1 ''Alex'' (fresh_socket all_sent) = Inr s'
          \<and> sent s' = [''   2: {Alex} said {bye now}'' @ [LF]])
   \<and> example_store ! (2 - 1) = mk_record ''Alex'' ''bye now''
   \<and> read_decimal ''2'' = 2"
proof -
  have plan: "\<forall>k. plan (fresh_socket all_sent) k = Sent"
    by (simp add: all_sent_def)
  from ordinal_is_store_position [OF wf_example_store matches_example_Alex [symmetric],
      of "fresh_socket all_sent"]
  obtain s' hits where run: "search_loop example_store 1 ''Alex'' (fresh_socket all_sent) = Inr s'"
    and out: "sent s' = sent (fresh_socket all_sent)
        @ map (\<lambda>(i, r). replicate (4 - length (digits i)) CHR '' '' @ digits i
                 @ '': {'' @ name_str r @ ''} said {'' @ msg_str r @ ''}'' @ [LF]) hits"
    and full: "(\<forall>k. plan (fresh_socket all_sent) k = Sent)
        \<longrightarrow> hits = [(2, mk_record ''Alex'' ''bye now'')]"
    and place: "\<forall>(i, r)\<in>set hits. 1 \<le> i \<and> i \<le> length example_store
        \<and> example_store ! (i - 1) = r \<and> read_decimal (digits i) = i"
    by blast
  from full plan have hits: "hits = [(2, mk_record ''Alex'' ''bye now'')]"
    by blast
  from out hits have line: "sent s' = [''   2: {Alex} said {bye now}'' @ [LF]]"
    by (simp add: digits_2 mk_record_strings numeral_3_eq_3)
  from place hits have "example_store ! (2 - 1) = mk_record ''Alex'' ''bye now''"
    and "read_decimal ''2'' = 2"
    by (simp_all add: digits_2)
  with run line plan wf_example_store matches_example_Alex show ?thesis
    by (intro conjI exI [of _ s']) simp_all
qed

text \<open>
  Claim C4, amended. The claim has loading fail on a file whose size is not a
  multiple of 250 bytes. The code tests only \<open>ferror\<close> after the read loop, and a short
  block at the end of a file is not a read error. What holds: such a file, when it opens,
  reads to its end and memory suffices, loads without failure; the store holds the whole
  blocks in file order, one record for each, and the bytes after the last whole block
  are dropped.
\<close>

theorem short_final_block_is_dropped:
  assumes "\<not> sizeof_MdbRec dvd length bytes"
    and "2 * (length bytes div sizeof_MdbRec) \<le> heap"
  shows "\<exists>store. load_store (Some \<lparr>unread = bytes, ending = EndOfFile, error_flag = False\<rparr>) heap
                    = Inr store
           \<and> length store = length bytes div sizeof_MdbRec
           \<and> (\<forall>i<length store. store ! i = record_at bytes i)"
  using load_store_eq [OF assms(2)] by (simp add: length_whole_records whole_records_nth)

theorem short_final_block_is_dropped_witness:
  "\<not> sizeof_MdbRec dvd length (replicate 251 CHR ''x'')
   \<and> 2 * (length (replicate 251 CHR ''x'') div sizeof_MdbRec) \<le> 2
   \<and> (\<exists>store. load_store (Some \<lparr>unread = replicate 251 CHR ''x'', ending = EndOfFile,
                                  error_flag = False\<rparr>) 2 = Inr store
        \<and> length store = 1
        \<and> (\<forall>i<length store. store ! i = record_at (replicate 251 CHR ''x'') i))"
  using short_final_block_is_dropped [of "replicate 251 CHR ''x''" 2]
  by (simp add: sizeof_MdbRec_def)

text \<open>The claim as stated fails on a file of 251 bytes, which loads as one record.\<close>

theorem short_final_read_counterexample:
  "load_store (Some \<lparr>unread = replicate 251 CHR ''x'', ending = EndOfFile, error_flag = False\<rparr>) 2
     = Inr [\<lparr>name = replicate 50 CHR ''x'', msg = replicate 200 CHR ''x''\<rparr>]"
  by (simp add: load_store_eq sizeof_MdbRec_def whole_records_def record_at_def)

text \<open>
  Claim C5, amended. The claim has a failed write of a result line end the session.
  In the code the \<open>break\<close> leaves the walk over the records only. What holds, on a
  well-formed store: when the \<open>send\<close> of the \<open>j\<close>-th matching line is the first that
  does not take its whole buffer, that line is passed to \<open>send\<close> once and no result
  line after it is sent; the process does not exit; the blank line is still sent for
  this query, and the loop goes on with \<open>fgets\<close> on the rest of the client's input. The
  session ends only when \<open>fgets\<close> returns NULL.
\<close>

theorem write_failure_ends_results_only:
  assumes "wf_store store" and "extract_key queryLine = Inr key"
    and "j < length (spec_search 1 store key)"
    and "\<forall>i<j. accepts (plan s (length (sent s) + i))
                  (length (result_line (spec_search 1 store key ! i)))"
    and "\<not> accepts (plan s (length (sent s) + j))
               (length (result_line (spec_search 1 store key ! j)))"
  shows "\<exists>s'. handle_query store queryLine s = Inr s'
           \<and> sent s' = sent s @ map result_line (take (Suc j) (spec_search 1 store key)) @ [[LF]]
           \<and> (\<forall>clientInput clientInput'.
                 fgets 1000 clientInput = (Some queryLine, clientInput') \<longrightarrow>
                 query_loop store clientInput s = query_loop store clientInput' s')"
proof -
  define L where "L = map result_line (spec_search 1 store key)"
  define s' where "s' = send_blank (send_until_fail s L)"
  have run: "handle_query store queryLine s = Inr s'"
    unfolding s'_def L_def using assms(1,2) by (rule handle_query_run)
  have "sent (send_until_fail s L) = sent s @ take (Suc j) L
      \<and> errlog (send_until_fail s L) = errlog s @ [''send() failed'']"
  proof (rule send_until_fail_first_failure)
    show "j < length L" using assms(3) by (simp add: L_def)
    show "\<forall>i<j. accepts (plan s (length (sent s) + i)) (length (L ! i))"
      using assms(3,4) by (simp add: L_def)
    show "\<not> accepts (plan s (length (sent s) + j)) (length (L ! j))"
      using assms(3,5) by (simp add: L_def)
  qed
  then have out: "sent s' = sent s @ map result_line (take (Suc j) (spec_search 1 store key)) @ [[LF]]"
    by (simp add: s'_def L_def take_map)
  have next_line: "query_loop store clientInput s = query_loop store clientInput' s'"
    if "fgets 1000 clientInput = (Some queryLine, clientInput')" for clientInput clientInput'
    using that run by (subst query_loop.simps) simp
  from run out next_line show ?thesis
    by blast
qed

theorem write_failure_ends_results_only_witness:
  "wf_store example_store \<and> extract_key (''e'' @ [LF]) = Inr ''e''
   \<and> 0 < length (spec_search 1 example_store ''e'')
   \<and> \<not> accepts (plan (fresh_socket first_fails) (length (sent (fresh_socket first_fails)) + 0))
           (length (result_line (spec_search 1 example_store ''e'' ! 0)))
   \<and> (\<exists>s'. handle_query example_store (''e'' @ [LF]) (fresh_socket first_fails) = Inr s'
        \<and> sent s' = [''   1: {Ramya} said {hi there}'' @ [LF], [LF]]
        \<and> (\<forall>clientInput clientInput'.
              fgets 1000 clientInput = (Some (''e'' @ [LF]), clientInput') \<longrightarrow>
              query_loop example_store clientInput (fresh_socket first_fails)
                = query_loop example_store clientInput' s'))"
proof -
  have key: "extract_key (''e'' @ [LF]) = Inr ''e''"
    by (simp add: extract_key_eq)
  have len: "0 < length (spec_search 1 example_store ''e'')"
    by (simp add: spec_search_example_e)
  have fails: "\<not> accepts (plan (fresh_socket first_fails)
                   (length (sent (fresh_socket first_fails)) + 0))
                 (length (result_line (spec_search 1 example_store ''e'' ! 0)))"
    by (simp add: accepts_def first_fails_def)
  have none: "\<forall>i<0. accepts (plan (fresh_socket first_fails)
                   (length (sent (fresh_socket first_fails)) + i))
                 (length (result_line (spec_search 1 example_store ''e'' ! i)))"
    by simp
  have line: "map result_line (take (Suc 0) (spec_search 1 example_store ''e''))
      = [''   1: {Ramya} said {hi there}'' @ [LF]]"
    by (simp add: spec_search_example_e result_line_def mk_record_strings format_result_def
          fmt_4d_1)
  from write_failure_ends_results_only [OF wf_example_store key len none fails]
  show ?thesis
    using wf_example_store key len fails line by simp
qed

text \<open>
  The claim as stated fails for a client that sends the same query twice while the first
  \<open>send\<close> fails: the blank line follows the failed write, and the second query is
  read and answered on the same connection.
\<close>

theorem write_failure_counterexample:
  "query_loop [mk_record ''Ramya'' ''hi there'']
     \<lparr>unread = ''Ra'' @ [LF] @ ''Ra'' @ [LF], ending = EndOfFile, error_flag = False\<rparr>
     (fresh_socket first_fails)
   = Inr (\<lparr>unread = [], ending = EndOfFile, error_flag = False\<rparr>,
          \<lparr>plan = first_fails,
           sent = [''   1: {Ramya} said {hi there}'' @ [LF], [LF],
                   ''   1: {Ramya} said {hi there}'' @ [LF], [LF]],
           wire = [LF] @ ''   1: {Ramya} said {hi there}'' @ [LF, LF],
           errlog = [''send() failed'']\<rparr>)"
  by (simp add: query_loop.simps fgets_def read_line_eval handle_query_def extract_key_eq
        mk_record_strings format_result_def fmt_4d_1 INT_MAX_def send_def
        send_blank_def perror_def fresh_socket_def first_fails_def Let_def)

text \<open>
  Claim C6. A file whose size is a multiple of 250 bytes, when it opens, reads to its
  end and memory suffices (two allocations for each record), loads as size / 250
  records; the record at index \<open>i\<close> of the store is the \<open>i\<close>-th block of the file, and the
  fields of the records, one after the other, are the bytes of the file.
\<close>

theorem load_well_formed_file:
  assumes "sizeof_MdbRec dvd length bytes"
    and "2 * (length bytes div sizeof_MdbRec) \<le> heap"
  shows "\<exists>store. load_store (Some \<lparr>unread = bytes, ending = EndOfFile, error_flag = False\<rparr>) heap
                    = Inr store
           \<and> length store = length bytes div sizeof_MdbRec
           \<and> (\<forall>i<length store. store ! i = record_at bytes i)
           \<and> concat (map (\<lambda>r. name r @ msg r) store) = bytes"
proof -
  from assms(1) have "length bytes div sizeof_MdbRec * sizeof_MdbRec = length bytes"
    by simp
  then have "concat (map (\<lambda>r. name r @ msg r) (whole_records bytes)) = bytes"
    unfolding whole_records_def by (simp only: concat_whole_records take_all_iff order_refl)
  then show ?thesis
    using load_store_eq [OF assms(2)] by (simp add: length_whole_records whole_records_nth)
qed

theorem load_well_formed_file_witness:
  "sizeof_MdbRec dvd length example_file
   \<and> 2 * (length example_file div sizeof_MdbRec) \<le> 4
   \<and> (\<exists>store. load_store (Some \<lparr>unread = example_file, ending = EndOfFile, error_flag = False\<rparr>) 4
                  = Inr store
        \<and> length store = 2
        \<and> (\<forall>i<length store. store ! i = record_at example_file i)
        \<and> concat (map (\<lambda>r. name r @ msg r) store) = example_file)"
  using load_well_formed_file [of example_file 4]
  by (simp add: length_example_file sizeof_MdbRec_def)

text \<open>
  Claim C7. A query whose key is the empty string after trimming matches every
  record: on a well-formed store, with every \<open>send\<close> succeeding, the response is the
  result line of every record of the store, in order, followed by the blank line.
\<close>

theorem empty_key_matches_every_record:
  assumes "wf_store store" and "\<forall>k. plan s k = Sent" and "extract_key queryLine = Inr []"
  shows "\<exists>s'. handle_query store queryLine s = Inr s'
           \<and> sent s' = sent s @ map result_line (enumerate 1 store) @ [[LF]]
           \<and> length (sent s') = length (sent s) + length store + 1"
  using assms
  by (simp add: handle_query_def search_loop_from_1 send_until_fail_all_sent search_empty_key)

theorem empty_key_matches_every_record_witness:
  "wf_store example_store \<and> (\<forall>k. plan (fresh_socket all_sent) k = Sent)
   \<and> extract_key [LF] = Inr []
   \<and> (\<exists>s'. handle_query example_store [LF] (fresh_socket all_sent) = Inr s'
        \<and> sent s' = [''   1: {Ramya} said {hi there}'' @ [LF],
                      ''   2: {Alex} said {bye now}'' @ [LF], [LF]]
        \<and> length (sent s') = 3)"
  using empty_key_matches_every_record [of example_store "fresh_socket all_sent" "[LF]"]
  by (simp add: wf_example_store all_sent_def enumerate_example_store length_example_store
        numeral_3_eq_3 extract_key_eq mk_record_strings result_line_def format_result_def fmt_4d_1 fmt_4d_2)

text \<open>
  Claim C8. The end of the client's stream, by end of file or by a read error, ends
  that session only. For a database that loads into a well-formed store and a client
  that sends no NUL byte, whatever the client sends, however its stream ends and
  whatever its \<open>send\<close>s do, \<open>processClientRequest\<close> returns to \<open>main\<close> (after
  logging \<open>fgets() failed\<close> when the stream broke), and the accept loop goes on with
  the connections that follow.
\<close>

theorem client_end_returns_to_accept:
  assumes "load_store databaseFile heap = Inr store" and "wf_store store"
    and "fdopen_ok clientSocket" and "NUL \<notin> set (request clientSocket)"
  shows "\<exists>s. processClientRequest clientSocket databaseFile heap
                 (stderr @ [''Connection established with: '' @ peer clientSocket]) = Inr s
           \<and> (request_end clientSocket = ReadError \<longrightarrow> last (errlog s) = ''fgets() failed'')
           \<and> accept_loop databaseFile heap (Accepted clientSocket # events) served stderr
               = accept_loop databaseFile heap events (served @ [s])
                   (errlog s @ [''Connection terminated from: '' @ peer clientSocket])"
proof -
  define cin where "cin = \<lparr>unread = request clientSocket, ending = request_end clientSocket,
                           error_flag = False\<rparr>"
  define s0 where "s0 = \<lparr>plan = send_plan clientSocket, sent = [], wire = [],
     errlog = stderr @ [''Connection established with: '' @ peer clientSocket]\<rparr>"
  from assms(4) have "NUL \<notin> set (unread cin)" by (simp add: cin_def)
  from query_loop_total [OF assms(2) this, of s0]
  obtain cin' s' where run: "query_loop store cin s0 = Inr (cin', s')"
    and flag: "error_flag cin' = (request_end clientSocket = ReadError)"
    by (auto simp: cin_def)
  define s where "s = (if ferror cin' then perror s' ''fgets() failed'' else s')"
  have ret: "processClientRequest clientSocket databaseFile heap
               (stderr @ [''Connection established with: '' @ peer clientSocket]) = Inr s"
    unfolding processClientRequest_def s_def
    using assms(1,3) run by (simp add: cin_def s0_def)
  have "request_end clientSocket = ReadError \<longrightarrow> last (errlog s) = ''fgets() failed''"
    using flag by (simp add: s_def ferror_def)
  moreover have "accept_loop databaseFile heap (Accepted clientSocket # events) served stderr
               = accept_loop databaseFile heap events (served @ [s])
                   (errlog s @ [''Connection terminated from: '' @ peer clientSocket])"
    by (simp only: accept_loop.simps ret sum.case)
  ultimately show ?thesis
    using ret by blast
qed

theorem client_end_returns_to_accept_witness:
  "load_store (Some \<lparr>unread = example_file, ending = EndOfFile, error_flag = False\<rparr>) 4
     = Inr example_store
   \<and> wf_store example_store \<and> fdopen_ok example_client
   \<and> NUL \<notin> set (request example_client)
   \<and> request_end example_client = ReadError
   \<and> (\<exists>s. processClientRequest example_client
               (Some \<lparr>unread = example_file, ending = EndOfFile, error_flag = False\<rparr>) 4
               ([] @ [''Connection established with: '' @ peer example_client]) = Inr s
          \<and> last (errlog s) = ''fgets() failed''
          \<and> accept_loop (Some \<lparr>unread = example_file, ending = EndOfFile, error_flag = False\<rparr>) 4
               (Accepted example_client # [Accepted example_client]) [] []
              = accept_loop (Some \<lparr>unread = example_file, ending = EndOfFile, error_flag = False\<rparr>) 4
                  [Accepted example_client] ([] @ [s])
                  (errlog s @ [''Connection terminated from: '' @ peer example_client]))"
proof -
  have c: "fdopen_ok example_client" "NUL \<notin> set (request example_client)"
    "request_end example_client = ReadError"
    by (simp_all add: example_client_def)
  from client_end_returns_to_accept [OF load_example_file wf_example_store c(1,2),
      of "[]" "[Accepted example_client]" "[]"]
  show ?thesis
    using c load_example_file wf_example_store by simp
qed

text \<open>
  Claim C9. The key comes from the first \<open>MAX_KEY_LENGTH\<close> = 5 bytes of the line:
  it is the string in them (the bytes before a NUL), without its last byte when that is
  a newline. Two lines that agree on their first 5 bytes have the same key and are
  answered the same way, on every store and every socket.
\<close>

theorem key_is_first_five_bytes:
  assumes "take MAX_KEY_LENGTH line1 = take MAX_KEY_LENGTH line2"
  shows "extract_key line1
           = (let k = takeWhile (\<lambda>c. c \<noteq> NUL) (take MAX_KEY_LENGTH line1)
              in if k = [] then Inl OutOfBounds
                 else Inr (if last k = LF then butlast k else k))
         \<and> extract_key line1 = extract_key line2
         \<and> handle_query store line1 s = handle_query store line2 s"
proof -
  have "extract_key line1 = extract_key (take 5 line1)"
    by (simp only: extract_key_take)
  also have "\<dots> = extract_key (take 5 line2)"
    using assms by (simp add: MAX_KEY_LENGTH_def)
  also have "\<dots> = extract_key line2"
    by (simp only: extract_key_take)
  finally have same: "extract_key line1 = extract_key line2" .
  then have "handle_query store line1 s = handle_query store line2 s"
    by (simp add: handle_query_def)
  with same show ?thesis
    by (simp add: extract_key_eq MAX_KEY_LENGTH_def take_takeWhile_commute)
qed

theorem key_is_first_five_bytes_witness:
  "take MAX_KEY_LENGTH (''Ramya'' @ [LF]) = take MAX_KEY_LENGTH (''Ramyaxyz'' @ [LF])
   \<and> extract_key (''Ramya'' @ [LF]) = Inr ''Ramya''
   \<and> extract_key (''Ramya'' @ [LF]) = extract_key (''Ramyaxyz'' @ [LF])
   \<and> handle_query example_store (''Ramya'' @ [LF]) (fresh_socket all_sent)
       = handle_query example_store (''Ramyaxyz'' @ [LF]) (fresh_socket all_sent)"
  using key_is_first_five_bytes [of "''Ramya'' @ [LF]" "''Ramyaxyz'' @ [LF]"
          example_store "fresh_socket all_sent"]
  by (simp add: MAX_KEY_LENGTH_def extract_key_eq)

text \<open>
  Claim C10. For a line that \<open>fgets\<close> can return (not empty) whose first byte is not
  NUL, the string copied into \<open>searchKey\<close> is not empty, so \<open>lastChar\<close> is its length
  minus one without wrap-around, an index inside the array, and the extraction does not
  end in the out-of-bounds read.
\<close>

theorem trim_index_in_bounds:
  assumes "queryLine \<noteq> []" and "hd queryLine \<noteq> NUL"
  shows "0 < strlen (copy_key queryLine)
         \<and> last_index (copy_key queryLine) = strlen (copy_key queryLine) - 1
         \<and> last_index (copy_key queryLine) < length (copy_key queryLine)
         \<and> extract_key queryLine \<noteq> Inl OutOfBounds"
proof -
  from assms obtain c cs where q: "queryLine = c # cs" and c: "c \<noteq> NUL"
    by (cases queryLine) auto
  have pos: "0 < strlen (copy_key queryLine)"
    by (simp add: strlen_copy_key q c)
  have le: "strlen (copy_key queryLine) \<le> 5"
    by (simp add: strlen_copy_key)
  from pos le have li: "last_index (copy_key queryLine) = strlen (copy_key queryLine) - 1"
    by (simp add: last_index_pos)
  from pos le li have "last_index (copy_key queryLine) < length (copy_key queryLine)"
    by (simp add: length_copy_key)
  moreover from extract_key_defined [OF assms] have "extract_key queryLine \<noteq> Inl OutOfBounds"
    by auto
  ultimately show ?thesis
    using pos li by simp
qed

theorem trim_index_in_bounds_witness:
  "''Ra'' @ [LF] \<noteq> [] \<and> hd (''Ra'' @ [LF]) \<noteq> NUL
   \<and> 0 < strlen (copy_key (''Ra'' @ [LF]))
   \<and> last_index (copy_key (''Ra'' @ [LF])) = 2
   \<and> last_index (copy_key (''Ra'' @ [LF])) < length (copy_key (''Ra'' @ [LF]))
   \<and> extract_key (''Ra'' @ [LF]) \<noteq> Inl OutOfBounds"
  using trim_index_in_bounds [of "''Ra'' @ [LF]"]
  by (simp add: strlen_copy_key)

end
